theory Spec2Isabelle
  imports Complex_Main "HOL-Library.Word" "HOL-Library.Monad_Syntax"
begin

unbundle bit_operations_syntax

section \<open>Kamstrup meter reader: the serial codec of \<^verbatim>\<open>Kamstrup_Powermeter_MQTT.ino\<close>\<close>

text \<open>
  The sketch targets the ESP8266 (32-bit): \<^verbatim>\<open>byte\<close> is 8 bits unsigned, \<^verbatim>\<open>word\<close> and
  \<^verbatim>\<open>unsigned short\<close> are 16 bits, \<^verbatim>\<open>int\<close> and \<^verbatim>\<open>long\<close> are 32 bits signed,
  \<^verbatim>\<open>unsigned long\<close> is 32 bits. Buffers are lists; an access outside a buffer is undefined
  behaviour in C++ and is written out as a value of its own in every model below.
  \<^verbatim>\<open>float\<close> is IEEE binary32 and \<^verbatim>\<open>double\<close> is binary64, both rounding to nearest,
  ties to even.
\<close>

type_synonym byte = "8 word"

subsection \<open>Configuration\<close>

definition kregnums :: "16 word list" where
  "kregnums = [0x0001, 0x000d, 0x03ff, 0x0027, 0x041e, 0x041f, 0x0420,
               0x0434, 0x0435, 0x0436, 0x438, 0x439, 0x43a]"

definition KAMTIMEOUT :: "32 word" where
  "KAMTIMEOUT = 1000"

text \<open>\<^verbatim>\<open>kregnums[kreg]\<close>: \<open>None\<close> is a read past the end of the table.\<close>

definition kregnum :: "nat \<Rightarrow> 16 word option" where
  "kregnum kreg = (if kreg < length kregnums then Some (kregnums ! kreg) else None)"

subsection \<open>\<^verbatim>\<open>crc_1021\<close>\<close>

text \<open>
  The body of the \<^verbatim>\<open>while (mask > 0)\<close> loop for one input bit: shift \<^verbatim>\<open>creg\<close> left,
  bring the bit in, and reduce when bit 16 is set. \<^verbatim>\<open>creg\<close> is a \<^verbatim>\<open>long\<close>.
\<close>

definition crc_update :: "32 word \<Rightarrow> bool \<Rightarrow> 32 word" where
  "crc_update creg inbit =
     (let creg1 = push_bit 1 creg;
          creg2 = (if inbit then creg1 OR 1 else creg1)
      in if creg2 AND 0x10000 \<noteq> 0 then (creg2 AND 0xffff) XOR 0x1021 else creg2)"

text \<open>
  The \<^verbatim>\<open>while\<close> loop over \<^verbatim>\<open>mask\<close> (here \<open>bmask\<close>, as \<open>mask\<close> is a constant of the
  word library), an \<^verbatim>\<open>int\<close> that runs through 0x80, 0x40, ..., 1, 0 and never
  overflows; \<^verbatim>\<open>inmsg[i] & mask\<close> is computed on the promoted byte.
\<close>

function crc_bits :: "32 word \<Rightarrow> byte \<Rightarrow> int \<Rightarrow> 32 word" where
  "crc_bits creg b bmask =
     (if bmask > 0
      then crc_bits (crc_update creg (uint b AND bmask \<noteq> 0)) b (bmask div 2)
      else creg)"
  by pat_completeness auto
termination
  by (relation "measure (\<lambda>(creg, b, bmask). nat bmask)") auto

declare crc_bits.simps [simp del]

definition crc_1021 :: "byte list \<Rightarrow> 32 word" where
  "crc_1021 inmsg = foldl (\<lambda>creg b. crc_bits creg b 0x80) 0 inmsg"

subsection \<open>\<^verbatim>\<open>kamReadReg\<close> and \<^verbatim>\<open>kamSend\<close>\<close>

text \<open>The message \<^verbatim>\<open>sendmsg\<close> that \<^verbatim>\<open>kamReadReg\<close> hands to \<^verbatim>\<open>kamSend\<close>.\<close>

definition sendmsg :: "nat \<Rightarrow> byte list option" where
  "sendmsg kreg = do {
     k \<leftarrow> kregnum kreg;
     Some [0x3f, 0x10, 0x01, ucast (drop_bit 8 k), ucast (k AND 0xff)]
   }"

text \<open>
  First part of \<^verbatim>\<open>kamSend\<close>: the message with two zero bytes appended, which are then
  overwritten by the checksum of the whole. The low eight bits of \<^verbatim>\<open>c >> 8\<close> are bits
  8 to 15 of \<^verbatim>\<open>c\<close>, whichever way the shift treats the sign.
\<close>

definition newmsg :: "byte list \<Rightarrow> byte list" where
  "newmsg msg =
     (let c = crc_1021 (msg @ [0x00, 0x00])
      in msg @ [ucast (drop_bit 8 c), ucast (c AND 0xff)])"

definition reserved :: "byte \<Rightarrow> bool" where
  "reserved b \<longleftrightarrow> b = 0x06 \<or> b = 0x0d \<or> b = 0x1b \<or> b = 0x40 \<or> b = 0x80"

text \<open>
  Second part of \<^verbatim>\<open>kamSend\<close>: the loop that escapes the bytes of \<^verbatim>\<open>newmsg\<close> into
  \<^verbatim>\<open>txmsg\<close>, which holds \<^verbatim>\<open>txsize\<close> bytes so far. \<^verbatim>\<open>txmsg\<close> has 20 bytes and no store
  into it is checked: \<open>None\<close> is a store past its end.
\<close>

fun escape_loop :: "byte list \<Rightarrow> byte list \<Rightarrow> byte list option" where
  "escape_loop [] txmsg = Some txmsg"
| "escape_loop (b # bs) txmsg =
     (if reserved b
      then (if length txmsg + 2 \<le> 20
            then escape_loop bs (txmsg @ [0x1b, b XOR 0xff]) else None)
      else (if length txmsg + 1 \<le> 20
            then escape_loop bs (txmsg @ [b]) else None))"

text \<open>
  The transmit message built from \<^verbatim>\<open>newmsg\<close>: the prefix 0x80, the escaped bytes, and
  the end marker, stored unchecked like the rest.
\<close>

definition txmsg_of :: "byte list \<Rightarrow> byte list option" where
  "txmsg_of plain = do {
     txmsg \<leftarrow> escape_loop plain [0x80];
     if length txmsg < 20 then Some (txmsg @ [0x0d]) else None
   }"

text \<open>\<^verbatim>\<open>kamSend\<close>: the bytes written to the serial line.\<close>

definition kamSend :: "byte list \<Rightarrow> byte list option" where
  "kamSend msg = txmsg_of (newmsg msg)"

text \<open>The plain (unescaped) request of \<^verbatim>\<open>kamReadReg\<close>, as \<^verbatim>\<open>kamSend\<close> builds it.\<close>

definition request_plain :: "nat \<Rightarrow> byte list option" where
  "request_plain kreg = map_option newmsg (sendmsg kreg)"

subsection \<open>\<^verbatim>\<open>kamReceive\<close>\<close>

text \<open>
  One iteration of the receive loop consults the environment once: the value of
  \<^verbatim>\<open>millis()\<close> at the timeout test, and the byte that \<^verbatim>\<open>kamSer\<close> has available
  (\<open>None\<close> when \<^verbatim>\<open>kamSer.available()\<close> is 0). The environment of a call is the list of
  these observations, in order, after the call's \<^verbatim>\<open>kamSer.flush()\<close>; \<^verbatim>\<open>starttime\<close> is
  the value of \<^verbatim>\<open>millis()\<close> on entry.
\<close>

type_synonym poll = "32 word \<times> byte option"

datatype loop_result =
    Loop_exit "byte list"  \<comment> \<open>\<^verbatim>\<open>r == 0x0d\<close>: the loop is left with these bytes in \<^verbatim>\<open>rxdata\<close>\<close>
  | Loop_timeout           \<comment> \<open>the \<^verbatim>\<open>return 0\<close> of the timeout test\<close>
  | Loop_overrun           \<comment> \<open>the store \<^verbatim>\<open>rxdata[50] = r\<close> is executed: outside the array\<close>
  | Loop_waiting           \<comment> \<open>the observations are used up and the loop is still running\<close>

text \<open>
  The loop of \<^verbatim>\<open>kamReceive\<close>. \<^verbatim>\<open>r\<close> is the last byte read (not initialised by the source:
  its value on entry is a parameter), \<^verbatim>\<open>rxdata\<close> holds the \<^verbatim>\<open>rxindex\<close> bytes stored so
  far. The source stores without comparing \<^verbatim>\<open>rxindex\<close> with the 50 bytes of \<^verbatim>\<open>rxdata\<close>.
\<close>

fun recv_loop :: "byte \<Rightarrow> 32 word \<Rightarrow> byte list \<Rightarrow> poll list \<Rightarrow> loop_result" where
  "recv_loop r starttime rxdata [] =
     (if r \<noteq> 0x0d then Loop_waiting else Loop_exit rxdata)"
| "recv_loop r starttime rxdata ((now, inp) # polls) =
     (if r \<noteq> 0x0d then
        if now - starttime > KAMTIMEOUT then Loop_timeout
        else (case inp of
                None \<Rightarrow> recv_loop r starttime rxdata polls
              | Some b \<Rightarrow>
                  if b \<noteq> 0x40 then
                    if length rxdata < 50 then recv_loop b starttime (rxdata @ [b]) polls
                    else Loop_overrun
                  else recv_loop b starttime rxdata polls)
      else Loop_exit rxdata)"

text \<open>
  The loop that removes the escape markers, over \<^verbatim>\<open>rxdata[0 .. rxindex - 1)\<close>: the argument
  is the whole of \<^verbatim>\<open>rxdata\<close>, whose last byte (the end marker) lies outside the loop's
  range but is read as \<^verbatim>\<open>rxdata[i+1]\<close> when the byte before it is 0x1b. The second
  argument holds the \<^verbatim>\<open>j\<close> bytes stored in \<^verbatim>\<open>recvmsg\<close> so far; \<^verbatim>\<open>recvmsg\<close> is the
  40-byte array of \<^verbatim>\<open>kamReadReg\<close> and no store into it is checked: \<open>None\<close> is a
  store past its end. The message printed for an escaped byte that is not reserved
  does not change the result.
\<close>

fun unescape_loop :: "byte list \<Rightarrow> byte list \<Rightarrow> byte list option" where
  "unescape_loop (b # c # rest) recvmsg =
     (if length recvmsg < 40
      then (if b = 0x1b then unescape_loop rest (recvmsg @ [c XOR 0xff])
            else unescape_loop (c # rest) (recvmsg @ [b]))
      else None)"
| "unescape_loop [t] recvmsg = Some recvmsg"
| "unescape_loop [] recvmsg = Some recvmsg"

datatype receive_result =
    Timed_out              \<comment> \<open>\<^verbatim>\<open>return 0\<close> after "Timed out listening for data"\<close>
  | Crc_error              \<comment> \<open>\<^verbatim>\<open>return 0\<close> after "CRC error"\<close>
  | Received "byte list"   \<comment> \<open>\<^verbatim>\<open>return j\<close>, with these \<^verbatim>\<open>j\<close> bytes in \<^verbatim>\<open>recvmsg\<close>\<close>
  | Undefined_behaviour    \<comment> \<open>an access outside \<^verbatim>\<open>rxdata\<close> or \<^verbatim>\<open>recvmsg\<close>\<close>
  | Waiting                \<comment> \<open>no return within the observations given\<close>

text \<open>
  The part of \<^verbatim>\<open>kamReceive\<close> after the receive loop. With \<^verbatim>\<open>rxindex = 0\<close> the bound
  \<^verbatim>\<open>rxindex - 1\<close> wraps around and the loop leaves the buffers.
\<close>

definition kamReceive_decode :: "byte list \<Rightarrow> receive_result" where
  "kamReceive_decode rxdata =
     (if rxdata = [] then Undefined_behaviour
      else case unescape_loop rxdata [] of
             None \<Rightarrow> Undefined_behaviour
           | Some recvmsg \<Rightarrow>
               if crc_1021 recvmsg \<noteq> 0 then Crc_error else Received recvmsg)"

definition kamReceive :: "byte \<Rightarrow> 32 word \<Rightarrow> poll list \<Rightarrow> receive_result" where
  "kamReceive r starttime polls =
     (case recv_loop r starttime [] polls of
        Loop_exit rxdata \<Rightarrow> kamReceive_decode rxdata
      | Loop_timeout \<Rightarrow> Timed_out
      | Loop_overrun \<Rightarrow> Undefined_behaviour
      | Loop_waiting \<Rightarrow> Waiting)"

text \<open>The \<^verbatim>\<open>unsigned short\<close> that \<^verbatim>\<open>kamReceive\<close> returns, where it returns.\<close>

fun return_value :: "receive_result \<Rightarrow> nat option" where
  "return_value Timed_out = Some 0"
| "return_value Crc_error = Some 0"
| "return_value (Received recvmsg) = Some (length recvmsg)"
| "return_value Undefined_behaviour = None"
| "return_value Waiting = None"

subsection \<open>\<^verbatim>\<open>kamDecode\<close>\<close>

text \<open>\<^verbatim>\<open>msg[i]\<close>: \<open>None\<close> is a read of a byte that the receive step has not written.\<close>

definition rd :: "byte list \<Rightarrow> nat \<Rightarrow> byte option" where
  "rd msg i = (if i < length msg then Some (msg ! i) else None)"

text \<open>
  The mantissa loop: \<^verbatim>\<open>x\<close> is a \<^verbatim>\<open>long\<close>, shifted left by 8 (bits leaving the 32 are
  lost) and or-ed with the next byte.
\<close>

function mantissa_loop :: "byte list \<Rightarrow> nat \<Rightarrow> nat \<Rightarrow> 32 word \<Rightarrow> 32 word option" where
  "mantissa_loop msg n i x =
     (if i < n
      then (case rd msg (i + 7) of
              None \<Rightarrow> None
            | Some b \<Rightarrow> mantissa_loop msg n (i + 1) (push_bit 8 x OR ucast b))
      else Some x)"
  by pat_completeness auto
termination
  by (relation "measure (\<lambda>(msg, n, i, x). n - i)") auto

declare mantissa_loop.simps [simp del]

definition mantissa :: "byte list \<Rightarrow> 32 word option" where
  "mantissa msg = do { n \<leftarrow> rd msg 5; mantissa_loop msg (unat n) 0 0 }"

text \<open>
  Floating point. A \<^verbatim>\<open>float\<close> is a finite number with its sign and magnitude (so that
  the two zeros differ), an infinity with its sign, or a NaN (whose sign and payload are
  not modelled).
\<close>

datatype float32 = Num bool real | Infinity bool | NaN

text \<open>Rounding a real to the nearest integer, ties to the even one.\<close>

definition rne :: "real \<Rightarrow> int" where
  "rne v =
     (let f = \<lfloor>v\<rfloor>; d = v - of_int f
      in if d < 1 / 2 then f else if 1 / 2 < d then f + 1 else if even f then f else f + 1)"

text \<open>
  The binary exponent of a magnitude \<open>a\<close>: the largest \<open>e\<close> from \<open>emin\<close> to
  \<open>emin + n\<close> with \<open>2 powi e \<le> a\<close>, and \<open>emin\<close> when there is none (the subnormal range).
\<close>

fun binade :: "nat \<Rightarrow> int \<Rightarrow> real \<Rightarrow> int" where
  "binade 0 emin a = emin"
| "binade (Suc n) emin a =
     (if 2 powi (emin + int (Suc n)) \<le> a then emin + int (Suc n) else binade n emin a)"

text \<open>
  Rounding a magnitude to a binary format with \<open>p\<close> significant bits, least normal
  exponent \<open>emin\<close> and greatest exponent \<open>emin + n\<close>: to the nearest multiple of the
  spacing of the format at \<open>a\<close>, ties to even. A result of \<open>2 powi (emin + n + 1)\<close> or
  more is beyond the finite numbers of the format.
\<close>

definition round_mag :: "nat \<Rightarrow> int \<Rightarrow> nat \<Rightarrow> real \<Rightarrow> real" where
  "round_mag p emin n a =
     (let q = 2 powi (binade n emin a - int p + 1) in of_int (rne (a / q)) * q)"

text \<open>Rounding to \<^verbatim>\<open>float\<close> (24 bits, exponents -126 to 127), with sign \<open>s\<close>.\<close>

definition to_float :: "bool \<Rightarrow> real \<Rightarrow> float32" where
  "to_float s a =
     (let m = round_mag 24 (- 126) 253 a in if 2 ^ 128 \<le> m then Infinity s else Num s m)"

text \<open>
  \<^verbatim>\<open>pow(10, i)\<close>, a \<^verbatim>\<open>double\<close> (53 bits, exponents -1022 to 1023): the library function
  is taken to return the \<^verbatim>\<open>double\<close> nearest to the power. For the exponents that
  \<^verbatim>\<open>kamDecode\<close> passes, -63 to 63, the power is within the range of \<^verbatim>\<open>double\<close>.
\<close>

definition pow10 :: "int \<Rightarrow> real" where
  "pow10 i = round_mag 53 (- 1022) 2045 (10 powi i)"

text \<open>The conversion of the \<^verbatim>\<open>long\<close> \<^verbatim>\<open>x\<close> to \<^verbatim>\<open>float\<close> in \<^verbatim>\<open>x * ifl\<close>.\<close>

definition float_of_long :: "32 word \<Rightarrow> float32" where
  "float_of_long x = to_float (sint x < 0) \<bar>real_of_int (sint x)\<bar>"

fun fneg :: "float32 \<Rightarrow> float32" where
  "fneg (Num s a) = Num (\<not> s) a"
| "fneg (Infinity s) = Infinity (\<not> s)"
| "fneg NaN = NaN"

text \<open>The product of two \<^verbatim>\<open>float\<close>s: the exact product rounded once.\<close>

fun fmul :: "float32 \<Rightarrow> float32 \<Rightarrow> float32" where
  "fmul (Num s a) (Num t b) = to_float (s \<noteq> t) (a * b)"
| "fmul (Num s a) (Infinity t) = (if a = 0 then NaN else Infinity (s \<noteq> t))"
| "fmul (Infinity s) (Num t b) = (if b = 0 then NaN else Infinity (s \<noteq> t))"
| "fmul (Infinity s) (Infinity t) = Infinity (s \<noteq> t)"
| "fmul NaN y = NaN"
| "fmul x NaN = NaN"

text \<open>
  The exponent \<^verbatim>\<open>i\<close> and the factor \<^verbatim>\<open>ifl\<close> computed from \<^verbatim>\<open>msg[6]\<close>: the
  \<^verbatim>\<open>double\<close> returned by \<^verbatim>\<open>pow\<close> is converted to \<^verbatim>\<open>float\<close>, then negated when
  bit 7 is set.
\<close>

definition exponent :: "byte \<Rightarrow> int" where
  "exponent e = (let i = uint (e AND 0x3f) in if e AND 0x40 \<noteq> 0 then - i else i)"

definition ifl :: "byte \<Rightarrow> float32" where
  "ifl e =
     (let f = to_float False (pow10 (exponent e)) in if e AND 0x80 \<noteq> 0 then fneg f else f)"

text \<open>
  \<^verbatim>\<open>kamDecode\<close>. \<^verbatim>\<open>return false\<close> in a function returning \<^verbatim>\<open>float\<close> returns +0. The
  tests are evaluated left to right and stop at the first that holds. In \<^verbatim>\<open>x * ifl\<close>
  the \<^verbatim>\<open>long\<close> is converted to \<^verbatim>\<open>float\<close> and the product is a \<^verbatim>\<open>float\<close>.
\<close>

definition kamDecode :: "nat \<Rightarrow> byte list \<Rightarrow> float32 option" where
  "kamDecode kreg msg = do {
     b0 \<leftarrow> rd msg 0;
     if b0 \<noteq> 0x3f then Some (Num False 0) else do {
     b1 \<leftarrow> rd msg 1;
     if b1 \<noteq> 0x10 then Some (Num False 0) else do {
     k \<leftarrow> kregnum kreg;
     b2 \<leftarrow> rd msg 2;
     if uint b2 \<noteq> uint (drop_bit 8 k) then Some (Num False 0) else do {
     b3 \<leftarrow> rd msg 3;
     if uint b3 \<noteq> uint (k AND 0xff) then Some (Num False 0) else do {
     x \<leftarrow> mantissa msg;
     e \<leftarrow> rd msg 6;
     Some (fmul (float_of_long x) (ifl e))
   }}}}}"

subsection \<open>Notions used to state the properties\<close>

text \<open>The value of a byte sequence read as an unsigned big-endian integer.\<close>

definition big_endian :: "byte list \<Rightarrow> nat" where
  "big_endian bs = foldl (\<lambda>a b. 256 * a + unat b) 0 bs"

text \<open>
  A reply answers the request for register \<open>k\<close>: the four header bytes that
  \<^verbatim>\<open>kamDecode\<close> tests.
\<close>

definition answers :: "16 word \<Rightarrow> byte list \<Rightarrow> bool" where
  "answers k msg \<longleftrightarrow>
     4 \<le> length msg \<and> msg ! 0 = 0x3f \<and> msg ! 1 = 0x10 \<and>
     msg ! 2 = ucast (drop_bit 8 k) \<and> msg ! 3 = ucast (k AND 0xff)"

text \<open>The number of bytes that a list of observations makes the receive loop store.\<close>

definition stored :: "poll list \<Rightarrow> nat" where
  "stored polls = length (filter (\<lambda>p. snd p \<noteq> None \<and> snd p \<noteq> Some 0x40) polls)"

text \<open>
  The observations made before the first one at which the timeout test of the receive
  loop holds.
\<close>

definition in_time :: "32 word \<Rightarrow> poll list \<Rightarrow> poll list" where
  "in_time starttime polls = takeWhile (\<lambda>p. \<not> KAMTIMEOUT < fst p - starttime) polls"

text \<open>The bits of a byte, most significant first, as \<^verbatim>\<open>crc_1021\<close> consumes them.\<close>

definition bits_of :: "byte \<Rightarrow> bool list" where
  "bits_of b = map (bit b) [7, 6, 5, 4, 3, 2, 1, 0]"

definition sel :: "bool \<Rightarrow> 32 word \<Rightarrow> 32 word" where
  "sel c k = (if c then k else 0)"

definition bxor :: "bool \<Rightarrow> bool \<Rightarrow> bool" where
  "bxor a b = (a \<noteq> b)"

section \<open>The checksum\<close>

subsection \<open>One byte is eight bit steps\<close>

lemma bit_test: "(uint (b::byte) AND 2 ^ k \<noteq> 0) = bit b k"
proof -
  have "bit b k = bit (uint b) k"
    by (auto simp add: bit_uint_iff dest: bit_imp_le_length)
  also have "\<dots> = (uint b AND push_bit k 1 \<noteq> 0)"
    by (rule bit_iff_and_push_bit_not_eq_0)
  finally show ?thesis by (simp add: push_bit_eq_mult)
qed

lemma crc_bits_step:
  assumes "0 < k"
  shows "crc_bits c b (2 ^ k) = crc_bits (crc_update c (bit b k)) b (2 ^ (k - 1))"
proof -
  from assms have d: "(2::int) ^ k div 2 = 2 ^ (k - 1)" by (cases k) simp_all
  show ?thesis by (subst crc_bits.simps) (simp add: bit_test d)
qed

lemma crc_bits_last: "crc_bits c b 1 = crc_update c (bit b 0)"
proof -
  have z: "\<And>c. crc_bits c b 0 = c" by (subst crc_bits.simps) simp
  show ?thesis using bit_test[of b 0] by (subst crc_bits.simps) (simp add: z)
qed

lemma crc_bits_unfold: "crc_bits c b 0x80 = foldl crc_update c (bits_of b)"
  unfolding bits_of_def
  using crc_bits_step[of 7 _ b] crc_bits_step[of 6 _ b] crc_bits_step[of 5 _ b]
    crc_bits_step[of 4 _ b] crc_bits_step[of 3 _ b] crc_bits_step[of 2 _ b]
    crc_bits_step[of 1 _ b] crc_bits_last[of _ b]
  by simp

lemma crc_1021_bits: "crc_1021 inmsg = foldl crc_update 0 (concat (map bits_of inmsg))"
proof -
  have "foldl (\<lambda>creg b. crc_bits creg b 0x80) c inmsg
      = foldl crc_update c (concat (map bits_of inmsg))" for c
    by (induction inmsg arbitrary: c) (simp_all add: crc_bits_unfold)
  then show ?thesis by (simp add: crc_1021_def)
qed

subsection \<open>The bit step on a 16-bit register\<close>

lemma ffff_mask: "(0xffff::32 word) = mask 16"
  by (simp add: mask_eq_exp_minus_1)

lemma bit16_test: "((w::32 word) AND 0x10000 \<noteq> 0) = bit w 16"
  using bit_iff_and_push_bit_not_eq_0[of w 16] by (simp add: push_bit_eq_mult)

lemma take_bit_self_mono:
  assumes "take_bit k (s::32 word) = s" "k \<le> l"
  shows "take_bit l s = s"
proof (rule bit_word_eqI)
  fix n assume "n < LENGTH(32)"
  have "bit s n \<Longrightarrow> n < k" using assms(1) by (metis bit_take_bit_iff)
  then show "bit (take_bit l s) n = bit s n"
    using assms(2) by (auto simp add: bit_take_bit_iff)
qed

lemma sel_neq: "sel (bxor a b) k = sel a k XOR sel b k"
  by (cases a; cases b) (simp_all add: sel_def bxor_def)

lemma sel_bounded:
  "take_bit 16 (sel c 1) = sel c 1" "take_bit 16 (sel c 0x1021) = sel c 0x1021"
  by (simp_all add: sel_def)

lemma crc_update_nf:
  assumes "take_bit 16 s = s"
  shows "crc_update s a = take_bit 16 (push_bit 1 s) XOR sel a 1 XOR sel (bit s 15) 0x1021"
proof -
  define d where "d = push_bit 1 s"
  have bd: "bit d n = (0 < n \<and> n < 32 \<and> bit s (n - 1))" for n
    unfolding d_def by (auto simp add: bit_simps bit_double_iff mult.commute[of s 2])
  have hi: "\<not> bit s n" if "16 \<le> n" for n
    using that assms by (metis bit_take_bit_iff not_le)
  have or1: "d OR 1 = d XOR 1"
    by (rule bit_word_eqI) (auto simp add: bit_simps bd)
  have b16: "bit (d XOR 1) 16 = bit s 15" "bit d 16 = bit s 15"
    by (simp_all add: bit_simps bd)
  have tb1: "take_bit 16 (d XOR 1) = take_bit 16 d XOR 1"
    by (rule bit_word_eqI) (auto simp add: bit_simps)
  have low: "take_bit 16 d = d" if "\<not> bit s 15"
  proof (rule bit_word_eqI)
    fix n assume "n < LENGTH(32)"
    show "bit (take_bit 16 d) n = bit d n"
    proof (cases "n < 16")
      case True
      then show ?thesis by (simp add: bit_simps)
    next
      case False
      then have "n = 16 \<or> 16 \<le> n - 1" by arith
      then have "\<not> bit s (n - 1)" using that hi by auto
      with False show ?thesis by (simp add: bit_simps bd)
    qed
  qed
  have "crc_update s a =
     (let creg2 = (if a then d OR 1 else d)
      in if bit creg2 16 then take_bit 16 creg2 XOR 0x1021 else creg2)"
    unfolding crc_update_def Let_def bit16_test ffff_mask take_bit_eq_mask[symmetric] d_def ..
  also have "\<dots> = take_bit 16 d XOR sel a 1 XOR sel (bit s 15) 0x1021"
    unfolding Let_def or1 sel_def using low
    by (cases a; cases "bit s 15") (simp_all add: b16 tb1 xor.assoc)
  finally show ?thesis unfolding d_def .
qed

lemma crc_update_bounded:
  "take_bit 16 s = s \<Longrightarrow> take_bit 16 (crc_update s a) = crc_update s a"
  by (simp add: crc_update_nf take_bit_xor sel_bounded)

text \<open>The step is linear over exclusive or, in the register and in the input bit.\<close>

lemma crc_update_xor:
  assumes "take_bit 16 s = s" "take_bit 16 t = t"
  shows "crc_update (s XOR t) (bxor a b) = crc_update s a XOR crc_update t b"
proof -
  have st: "take_bit 16 (s XOR t) = s XOR t" using assms by (simp add: take_bit_xor)
  have p: "push_bit 1 (s XOR t) = push_bit 1 s XOR push_bit 1 t"
    by (rule bit_word_eqI) (auto simp add: bit_simps)
  have b: "bit (s XOR t) 15 = bxor (bit s 15) (bit t 15)"
    by (simp add: bit_xor_iff bxor_def)
  show ?thesis
    unfolding crc_update_nf[OF st] crc_update_nf[OF assms(1)] crc_update_nf[OF assms(2)]
      p take_bit_xor b sel_neq
    by (simp only: ac_simps)
qed

lemma run_bounded:
  "take_bit 16 s = s \<Longrightarrow> take_bit 16 (foldl crc_update s bs) = foldl crc_update s bs"
  by (induction bs arbitrary: s) (simp_all add: crc_update_bounded)

lemma run_xor:
  "take_bit 16 s = s \<Longrightarrow> take_bit 16 t = t \<Longrightarrow> length as = length bs \<Longrightarrow>
   foldl crc_update (s XOR t) (map2 bxor as bs)
     = foldl crc_update s as XOR foldl crc_update t bs"
proof (induction as bs arbitrary: s t rule: list_induct2')
  case (4 a as b bs)
  have "take_bit 16 (crc_update s a) = crc_update s a"
    "take_bit 16 (crc_update t b) = crc_update t b"
    using 4 by (simp_all add: crc_update_bounded)
  with 4 show ?case by (simp add: crc_update_xor)
qed simp_all

text \<open>Running from \<open>s\<close> is running zeros from \<open>s\<close>, combined with running from 0.\<close>

lemma run_split:
  assumes "take_bit 16 s = s"
  shows "foldl crc_update s bs
     = foldl crc_update s (replicate (length bs) False) XOR foldl crc_update 0 bs"
proof -
  have m: "map2 bxor (replicate (length bs) False) bs = bs"
    by (induction bs) (simp_all add: bxor_def)
  show ?thesis
    using run_xor[of s 0 "replicate (length bs) False" bs] assms by (simp add: m)
qed

subsection \<open>While the register is short, the steps only shift\<close>

lemma bit_crc_update_small:
  assumes "take_bit 15 s = s"
  shows "bit (crc_update s a) n = (if n = 0 then a else n < 32 \<and> bit s (n - 1))"
proof -
  define d where "d = push_bit 1 s"
  have hi: "\<not> bit s m" if "15 \<le> m" for m
    using that assms by (metis bit_take_bit_iff not_le)
  have s16: "take_bit 16 s = s"
    using assms by (rule take_bit_self_mono) simp
  have bd: "bit d m = (0 < m \<and> m < 32 \<and> bit s (m - 1))" for m
    unfolding d_def by (auto simp add: bit_simps bit_double_iff mult.commute[of s 2])
  have "crc_update s a = take_bit 16 d XOR sel a 1"
    unfolding d_def using hi[of 15] by (simp add: crc_update_nf[OF s16] sel_def)
  then have "bit (crc_update s a) n = (bit (take_bit 16 d) n \<noteq> bit (sel a 1) n)"
    by (simp add: bit_xor_iff)
  also have "\<dots> = (if n = 0 then a else n < 32 \<and> bit s (n - 1))"
  proof (cases "n = 0")
    case True
    then show ?thesis by (simp add: bit_take_bit_iff bd sel_def)
  next
    case False
    then have "\<not> bit (sel a 1) n" by (simp add: sel_def bit_simps)
    moreover have "n < 16" if "bit s (n - 1)"
    proof -
      from that have "\<not> 15 \<le> n - 1" using hi by blast
      then show ?thesis by arith
    qed
    ultimately show ?thesis using False by (auto simp add: bit_take_bit_iff bd)
  qed
  finally show ?thesis .
qed

lemma run_small:
  "take_bit (16 - length bs) s = s \<Longrightarrow> length bs \<le> 16 \<Longrightarrow>
   bit (foldl crc_update s bs) n =
     (if n < length bs then rev bs ! n else n < 32 \<and> bit s (n - length bs))"
proof (induction bs arbitrary: s n)
  case Nil
  then show ?case by (auto dest: bit_imp_le_length)
next
  case (Cons a bs)
  have hi: "\<not> bit s m" if "15 - length bs \<le> m" for m
  proof -
    from Cons.prems have "take_bit (15 - length bs) s = s" by simp
    then show ?thesis using that by (metis bit_take_bit_iff not_le)
  qed
  have s15: "take_bit 15 s = s"
    using Cons.prems(1) by (rule take_bit_self_mono) simp
  note b = bit_crc_update_small[OF s15]
  have s': "take_bit (16 - length bs) (crc_update s a) = crc_update s a"
  proof (rule bit_word_eqI)
    fix m assume "m < LENGTH(32)"
    have "m < 16 - length bs" if "bit s (m - 1)" "0 < m"
    proof -
      from that(1) have "\<not> 15 - length bs \<le> m - 1" using hi by blast
      with that(2) show ?thesis by arith
    qed
    moreover have "0 < 16 - length bs" using Cons.prems(2) by simp
    ultimately show "bit (take_bit (16 - length bs) (crc_update s a)) m = bit (crc_update s a) m"
      by (auto simp add: bit_take_bit_iff b)
  qed
  have "bit (foldl crc_update (crc_update s a) bs) n =
     (if n < length bs then rev bs ! n else n < 32 \<and> bit (crc_update s a) (n - length bs))"
    using Cons.IH[OF s'] Cons.prems(2) by simp
  then show ?case
    using Cons.prems(2) by (auto simp add: b nth_append less_Suc_eq)
qed

lemma rev_bits_of: "rev (bits_of b) = map (bit b) [0..<8]"
  by (simp add: bits_of_def upt_rec eval_nat_numeral)

lemma run_two_bytes:
  "bit (foldl crc_update 0 (bits_of hi @ bits_of lo)) n =
     (if n < 8 then bit lo n else n < 16 \<and> bit hi (n - 8))"
proof -
  have l: "length (bits_of hi @ bits_of lo) = 16" by (simp add: bits_of_def)
  have "bit (foldl crc_update 0 (bits_of hi @ bits_of lo)) n =
     (if n < 16 then rev (bits_of hi @ bits_of lo) ! n else False)"
    using run_small[of "bits_of hi @ bits_of lo" 0 n] unfolding l by simp
  also have "\<dots> = (if n < 8 then bit lo n else n < 16 \<and> bit hi (n - 8))"
    by (simp add: rev_bits_of nth_append del: upt.simps)
  finally show ?thesis .
qed

text \<open>
  The checksum of a message extended by two bytes is the checksum of the message
  extended by two zero bytes, exclusive-or the two bytes read as a 16-bit number.
\<close>

lemma crc_1021_append2:
  "crc_1021 (msg @ [hi, lo])
     = crc_1021 (msg @ [0, 0]) XOR (push_bit 8 (ucast hi) OR ucast lo)"
proof -
  define s where "s = foldl crc_update 0 (concat (map bits_of msg))"
  have sb: "take_bit 16 s = s" unfolding s_def by (rule run_bounded) simp
  have z: "bits_of 0 @ bits_of 0 = replicate 16 False"
    by (simp add: bits_of_def eval_nat_numeral)
  have c_eq: "crc_1021 (msg @ [0, 0]) = foldl crc_update s (replicate 16 False)"
    by (simp add: crc_1021_bits s_def z)
  have l: "length (bits_of hi @ bits_of lo) = 16" by (simp add: bits_of_def)
  have tail: "foldl crc_update 0 (bits_of hi @ bits_of lo) = push_bit 8 (ucast hi) OR ucast lo"
    unfolding bit_eq_iff run_two_bytes
    by (auto simp add: bit_simps dest: bit_imp_le_length)
  have "crc_1021 (msg @ [hi, lo]) = foldl crc_update s (bits_of hi @ bits_of lo)"
    by (simp add: crc_1021_bits s_def)
  also have "\<dots> = foldl crc_update s (replicate 16 False)
                   XOR foldl crc_update 0 (bits_of hi @ bits_of lo)"
    using run_split[OF sb, of "bits_of hi @ bits_of lo"] unfolding l .
  finally show ?thesis unfolding tail c_eq .
qed

lemma crc_1021_bounded: "take_bit 16 (crc_1021 msg) = crc_1021 msg"
  unfolding crc_1021_bits by (rule run_bounded) simp

lemma split_16:
  assumes "take_bit 16 (c::32 word) = c"
  shows "push_bit 8 (ucast (ucast (drop_bit 8 c) :: byte)) OR ucast (ucast (c AND 0xff) :: byte) = c"
proof -
  define w :: "32 word"
    where "w = push_bit 8 (ucast (ucast (drop_bit 8 c) :: byte)) OR ucast (ucast (c AND 0xff) :: byte)"
  have ff: "(0xff::32 word) = mask 8" by (simp add: mask_eq_exp_minus_1)
  have "w = c"
  proof (rule bit_word_eqI)
    fix n assume "n < LENGTH(32)"
    have "bit c n \<Longrightarrow> n < 16" using assms by (metis bit_take_bit_iff)
    then show "bit w n = bit c n"
      unfolding w_def ff by (auto simp add: bit_simps)
  qed
  then show ?thesis unfolding w_def .
qed

text \<open>
  C4. A message followed by its checksum (the checksum of the message with two zero
  bytes appended, stored high byte first as \<^verbatim>\<open>kamSend\<close> does) has checksum 0.
\<close>

theorem crc_of_message_with_crc_is_zero:
  "crc_1021 (msg @ [ucast (drop_bit 8 (crc_1021 (msg @ [0, 0]))),
                    ucast (crc_1021 (msg @ [0, 0]) AND 0xff)]) = 0"
  by (subst crc_1021_append2) (simp add: split_16[OF crc_1021_bounded])

section \<open>Escaping and unescaping\<close>

lemma not_reserved_escape: "\<not> reserved b \<Longrightarrow> b \<noteq> 0x1b"
  by (auto simp add: reserved_def)

text \<open>Bytes that are not reserved are copied, as long as \<^verbatim>\<open>txmsg\<close> has room.\<close>

lemma escape_loop_plain:
  "\<forall>b\<in>set bs. \<not> reserved b \<Longrightarrow> length txmsg \<le> 20 \<Longrightarrow>
   escape_loop bs txmsg = (if length txmsg + length bs \<le> 20 then Some (txmsg @ bs) else None)"
  by (induction bs arbitrary: txmsg) simp_all

lemma txmsg_of_plain:
  assumes "\<forall>b\<in>set plain. \<not> reserved b"
  shows "txmsg_of plain = (if length plain \<le> 18 then Some (0x80 # plain @ [0x0d]) else None)"
  using assms by (auto simp add: txmsg_of_def escape_loop_plain)

lemma unescape_loop_plain:
  "0x1b \<notin> set bs \<Longrightarrow> length recvmsg \<le> 40 \<Longrightarrow>
   unescape_loop (bs @ [t]) recvmsg =
     (if length recvmsg + length bs \<le> 40 then Some (recvmsg @ bs) else None)"
proof (induction bs arbitrary: recvmsg)
  case Nil
  then show ?case by simp
next
  case (Cons b bs)
  obtain c rest where cr: "bs @ [t] = c # rest"
    by (cases "bs @ [t]") simp_all
  from Cons.prems have b: "b \<noteq> 0x1b" by auto
  have step: "unescape_loop ((b # bs) @ [t]) recvmsg =
    (if length recvmsg < 40 then unescape_loop (bs @ [t]) (recvmsg @ [b]) else None)"
  proof -
    have "unescape_loop ((b # bs) @ [t]) recvmsg = unescape_loop (b # c # rest) recvmsg"
      by (simp add: cr)
    also have "\<dots> = (if length recvmsg < 40 then unescape_loop (c # rest) (recvmsg @ [b])
                       else None)"
      using b by simp
    finally show ?thesis unfolding cr .
  qed
  show ?case
  proof (cases "length recvmsg < 40")
    case True
    with Cons.prems have "unescape_loop (bs @ [t]) (recvmsg @ [b]) =
      (if length (recvmsg @ [b]) + length bs \<le> 40 then Some ((recvmsg @ [b]) @ bs) else None)"
      by (intro Cons.IH) simp_all
    with True show ?thesis unfolding step by simp
  next
    case False
    then show ?thesis unfolding step by simp
  qed
qed

text \<open>
  C5, as the code has it. For a message of at most 18 bytes without reserved bytes (0x06,
  0x0d, 0x1b, 0x40, 0x80) the escape loop of \<^verbatim>\<open>kamSend\<close> copies the message between
  the two markers, inside \<^verbatim>\<open>txmsg\<close>, and the unescape loop of \<^verbatim>\<open>kamReceive\<close>, run over
  these bytes and the end marker, gives the message back, inside \<^verbatim>\<open>recvmsg\<close>.
\<close>

theorem escape_unescape_roundtrip:
  assumes "\<forall>b\<in>set plain. \<not> reserved b" "length plain \<le> 18"
  shows "txmsg_of plain = Some (0x80 # plain @ [0x0d]) \<and>
         unescape_loop (plain @ [0x0d]) [] = Some plain"
proof -
  have 1: "txmsg_of plain = Some (0x80 # plain @ [0x0d])"
    using assms by (simp add: txmsg_of_plain)
  have "0x1b \<notin> set plain" using assms(1) not_reserved_escape by blast
  then have 2: "unescape_loop (plain @ [0x0d]) [] = Some plain"
    using assms(2) by (simp add: unescape_loop_plain)
  from 1 2 show ?thesis ..
qed

theorem escape_unescape_roundtrip_witness:
  "\<not> reserved 0x3f \<and> \<not> reserved 0x10 \<and> \<not> reserved 0x01 \<and>
   txmsg_of [0x3f, 0x10, 0x01] = Some [0x80, 0x3f, 0x10, 0x01, 0x0d] \<and>
   unescape_loop [0x3f, 0x10, 0x01, 0x0d] [] = Some [0x3f, 0x10, 0x01]"
  using escape_unescape_roundtrip[of "[0x3f, 0x10, 0x01]"]
  by (simp add: reserved_def)

text \<open>
  Nineteen zero bytes: the store of the end marker is outside \<^verbatim>\<open>txmsg\<close>, and no frame
  comes out of the escape step. Forty-one zero bytes and the end marker: the unescape
  loop stores outside \<^verbatim>\<open>recvmsg\<close>.
\<close>

theorem escape_unescape_counterexample:
  "\<not> reserved 0x00 \<and>
   txmsg_of (replicate 19 0x00) = None \<and>
   unescape_loop (replicate 41 0x00 @ [0x0d]) [] = None"
proof -
  have r: "\<not> reserved 0x00" by (simp add: reserved_def)
  then have "\<forall>b\<in>set (replicate 19 (0x00 :: byte)). \<not> reserved b" by simp
  then have 1: "txmsg_of (replicate 19 0x00) = None" by (simp add: txmsg_of_plain)
  have "(0x1b :: byte) \<notin> set (replicate 41 0x00)" by simp
  then have 2: "unescape_loop (replicate 41 0x00 @ [0x0d]) [] = None"
    by (simp add: unescape_loop_plain)
  from r 1 2 show ?thesis by simp
qed

section \<open>The request\<close>

lemma crc_request_0: "crc_1021 [0x3f, 0x10, 0x01, 0x00, 0x01, 0x00, 0x00] = 0x55a1"
  by (simp add: crc_1021_def crc_bits_unfold bits_of_def crc_update_def)

text \<open>
  The request for register 0x0001 (index 0 of \<^verbatim>\<open>kregnums\<close>) has seven bytes before
  escaping, not six: the header has a fifth byte, 0x01, between the opcode and the address.
\<close>

theorem request_plain_counterexample:
  "kregnum 0 = Some 0x0001 \<and>
   request_plain 0 = Some [0x3f, 0x10, 0x01, 0x00, 0x01, 0x55, 0xa1] \<and>
   map_option length (request_plain 0) \<noteq> Some 6"
  by (simp add: request_plain_def sendmsg_def kregnum_def kregnums_def newmsg_def crc_request_0)


text \<open>
  C1, as the code has it. For every index \<open>kreg\<close> into \<^verbatim>\<open>kregnums\<close>, with register
  \<open>k\<close>, the plain request is the five-byte header 0x3f, 0x10, 0x01, high byte of \<open>k\<close>,
  low byte of \<open>k\<close>, followed by the checksum of these five bytes and two zero bytes,
  high byte first: seven bytes, whose checksum is 0.
\<close>

theorem request_plain_layout:
  assumes "kregnum kreg = Some k"
  shows "let hdr = [0x3f, 0x10, 0x01, ucast (drop_bit 8 k), ucast (k AND 0xff)];
             c = crc_1021 (hdr @ [0, 0]);
             plain = hdr @ [ucast (drop_bit 8 c), ucast (c AND 0xff)]
         in request_plain kreg = Some plain \<and> length plain = 7 \<and> crc_1021 plain = 0"
proof -
  define hdr :: "byte list"
    where "hdr = [0x3f, 0x10, 0x01, ucast (drop_bit 8 k), ucast (k AND 0xff)]"
  define c where "c = crc_1021 (hdr @ [0, 0])"
  have 1: "request_plain kreg = Some (hdr @ [ucast (drop_bit 8 c), ucast (c AND 0xff)])"
    using assms by (simp add: request_plain_def sendmsg_def newmsg_def hdr_def c_def Let_def)
  have 2: "length (hdr @ [ucast (drop_bit 8 c), ucast (c AND 0xff) :: byte]) = 7"
    by (simp add: hdr_def)
  have 3: "crc_1021 (hdr @ [ucast (drop_bit 8 c), ucast (c AND 0xff)]) = 0"
    unfolding c_def
    by (subst crc_1021_append2) (simp add: split_16[OF crc_1021_bounded])
  from 1 2 3 show ?thesis unfolding Let_def hdr_def[symmetric] c_def[symmetric] by simp
qed

theorem request_plain_layout_witness:
  "kregnum 0 = Some 0x0001 \<and>
   request_plain 0 = Some [0x3f, 0x10, 0x01, 0x00, 0x01, 0x55, 0xa1] \<and>
   crc_1021 [0x3f, 0x10, 0x01, 0x00, 0x01, 0x55, 0xa1] = 0"
proof -
  have h: "kregnum 0 = Some 0x0001" by (simp add: kregnum_def kregnums_def)
  show ?thesis
    using h request_plain_layout[OF h] by (simp add: Let_def crc_request_0)
qed

text \<open>
  Each byte becomes at most two, so the escaped request and its two markers fit into the
  20 bytes of \<^verbatim>\<open>txmsg\<close>.
\<close>

lemma escape_loop_fits:
  "length txmsg + 2 * length bs \<le> 20 \<Longrightarrow>
   \<exists>out. escape_loop bs txmsg = Some out \<and> length out \<le> length txmsg + 2 * length bs"
proof (induction bs arbitrary: txmsg)
  case Nil
  show ?case by simp
next
  case (Cons b bs)
  show ?case
  proof (cases "reserved b")
    case True
    from Cons.prems have "length (txmsg @ [0x1b, b XOR 0xff]) + 2 * length bs \<le> 20" by simp
    from Cons.IH[OF this] Cons.prems True show ?thesis by auto
  next
    case False
    from Cons.prems have "length (txmsg @ [b]) + 2 * length bs \<le> 20" by simp
    from Cons.IH[OF this] Cons.prems False show ?thesis by auto
  qed
qed

lemma kamSend_request_fits:
  assumes "sendmsg kreg = Some msg"
  shows "\<exists>txmsg. kamSend msg = Some txmsg"
proof -
  from assms have "length msg = 5"
    by (auto simp add: sendmsg_def split: bind_splits)
  then have "length (newmsg msg) = 7" by (simp add: newmsg_def Let_def)
  then have "length [0x80 :: byte] + 2 * length (newmsg msg) \<le> 20" by simp
  from escape_loop_fits[OF this] \<open>length (newmsg msg) = 7\<close>
  obtain out where "escape_loop (newmsg msg) [0x80] = Some out" "length out \<le> 15" by auto
  then show ?thesis by (simp add: kamSend_def txmsg_of_def)
qed

lemma kamSend_request_0:
  "kamSend [0x3f, 0x10, 0x01, 0x00, 0x01]
     = Some [0x80, 0x3f, 0x10, 0x01, 0x00, 0x01, 0x55, 0xa1, 0x0d]"
  by (simp add: kamSend_def txmsg_of_def newmsg_def crc_request_0 reserved_def)

section \<open>The decoder\<close>

subsection \<open>The header test\<close>

lemma uint_byte_eq:
  assumes "take_bit 8 (w :: 16 word) = w"
  shows "(uint (b :: byte) = uint w) = (b = ucast w)"
proof -
  have "uint (ucast w :: byte) = take_bit 8 (uint w)"
    by (simp add: unsigned_ucast_eq)
  also have "\<dots> = uint (take_bit 8 w)" by (simp add: unsigned_take_bit_eq)
  finally have "uint (ucast w :: byte) = uint w" using assms by simp
  then show ?thesis by (metis word_uint_eq_iff)
qed

lemma hi_byte_small: "take_bit 8 (drop_bit 8 (k :: 16 word)) = drop_bit 8 k"
  by (rule bit_word_eqI) (auto simp add: bit_simps dest: bit_imp_le_length)

lemma lo_byte_small: "take_bit 8 ((k :: 16 word) AND 0xff) = k AND 0xff"
proof -
  have ff: "(0xff::16 word) = mask 8" by (simp add: mask_eq_exp_minus_1)
  show ?thesis unfolding ff by (rule bit_word_eqI) (auto simp add: bit_simps)
qed

lemma kamDecode_match:
  assumes "kregnum kreg = Some k" "answers k msg"
  shows "kamDecode kreg msg =
     do { x \<leftarrow> mantissa msg; e \<leftarrow> rd msg 6; Some (fmul (float_of_long x) (ifl e)) }"
  using assms
  by (simp add: kamDecode_def rd_def answers_def
        uint_byte_eq[OF hi_byte_small] uint_byte_eq[OF lo_byte_small])

subsection \<open>The mantissa\<close>

lemma mantissa_loop_eq:
  "i \<le> n \<Longrightarrow> mantissa_loop msg n i x =
     (if i < n \<and> length msg < n + 7 then None
      else Some (foldl (\<lambda>a b. push_bit 8 a OR ucast b) x (take (n - i) (drop (i + 7) msg))))"
proof (induction msg n i x rule: mantissa_loop.induct)
  case (1 msg n i x)
  show ?case
  proof (cases "i < n")
    case False
    with 1 show ?thesis by (subst mantissa_loop.simps) simp
  next
    case True
    show ?thesis
    proof (cases "i + 7 < length msg")
      case False
      with True show ?thesis by (subst mantissa_loop.simps) (simp add: rd_def)
    next
      case lt: True
      have d: "take (n - i) (drop (i + 7) msg)
                 = msg ! (i + 7) # take (n - (i + 1)) (drop (i + 1 + 7) msg)"
      proof -
        have "drop (i + 7) msg = msg ! (i + 7) # drop (Suc (i + 7)) msg"
          using lt by (rule Cons_nth_drop_Suc[symmetric])
        moreover have "n - i = Suc (n - (i + 1))" using True by simp
        ultimately show ?thesis by simp
      qed
      have ih: "mantissa_loop msg n (i + 1) (push_bit 8 x OR ucast (msg ! (i + 7))) =
        (if i + 1 < n \<and> length msg < n + 7 then None
         else Some (foldl (\<lambda>a b. push_bit 8 a OR ucast b) (push_bit 8 x OR ucast (msg ! (i + 7)))
                      (take (n - (i + 1)) (drop (i + 1 + 7) msg))))"
        using "1.IH"[OF True, of "msg ! (i + 7)"] True lt by (simp add: rd_def)
      have e: "(i + 1 < n \<and> length msg < n + 7) = (length msg < n + 7)"
        using lt True by auto
      show ?thesis
        using True lt
        apply (subst mantissa_loop.simps)
        apply (simp only: ih d e rd_def if_True option.case foldl.simps)
        apply simp
        done
    qed
  qed
qed

lemma shift_in_add: "push_bit 8 (a :: 32 word) OR ucast (b :: byte) = a * 256 + ucast b"
proof -
  have "push_bit 8 a AND ucast b = 0"
    by (rule bit_word_eqI) (auto simp add: bit_simps dest: bit_imp_le_length)
  then have "push_bit 8 a + ucast b = push_bit 8 a OR ucast b"
    by (rule disjunctive_add_eq_or)
  then show ?thesis by (simp add: push_bit_eq_mult)
qed

lemma fold_word_of_nat:
  "foldl (\<lambda>a b. push_bit 8 a OR ucast b) (word_of_nat a) (bs :: byte list)
     = (word_of_nat (foldl (\<lambda>a b. 256 * a + unat b) a bs) :: 32 word)"
proof (induction bs arbitrary: a)
  case Nil
  show ?case by simp
next
  case (Cons b bs)
  have "push_bit 8 (word_of_nat a :: 32 word) OR ucast b = word_of_nat a * 256 + ucast b"
    by (rule shift_in_add)
  also have "\<dots> = word_of_nat (256 * a + unat b)" by simp
  finally have "push_bit 8 (word_of_nat a :: 32 word) OR ucast b = word_of_nat (256 * a + unat b)" .
  then show ?case using Cons[of "256 * a + unat b"] by simp
qed

lemma mantissa_eq:
  "mantissa msg =
     (if 5 < length msg \<and> (msg ! 5 = 0 \<or> 7 + unat (msg ! 5) \<le> length msg)
      then Some (word_of_nat (big_endian (take (unat (msg ! 5)) (drop 7 msg))))
      else None)"
proof -
  have z: "(0 < unat (msg ! 5)) = (msg ! 5 \<noteq> 0)" by (simp add: unat_gt_0)
  show ?thesis
    using fold_word_of_nat[of 0 "take (unat (msg ! 5)) (drop 7 msg)"]
    by (auto simp add: mantissa_def rd_def mantissa_loop_eq big_endian_def z)
qed


lemma big_endian_bound: "big_endian bs < 256 ^ length bs"
proof -
  have "foldl (\<lambda>a b. 256 * a + unat b) a bs < (a + 1) * 256 ^ length bs"
    for a and bs :: "byte list"
  proof (induction bs arbitrary: a)
    case Nil
    show ?case by simp
  next
    case (Cons b bs)
    have "unat b < 256" using unsigned_less[of b] by simp
    then have "256 * a + unat b + 1 \<le> (a + 1) * 256" by simp
    then have "(256 * a + unat b + 1) * 256 ^ length bs \<le> (a + 1) * 256 * 256 ^ length bs"
      by (rule mult_le_mono1)
    with Cons[of "256 * a + unat b"]
    have "foldl (\<lambda>a b. 256 * a + unat b) (256 * a + unat b) bs < (a + 1) * 256 * 256 ^ length bs"
      by (rule less_le_trans)
    then show ?case by (simp add: algebra_simps)
  qed
  from this[of 0] show ?thesis by (simp add: big_endian_def)
qed

lemma sint_word_of_nat:
  "(sint (word_of_nat n :: 32 word) = int n) = (n < 2 ^ 31)"
proof -
  define x :: "32 word" where "x = word_of_nat n"
  have u: "uint x = int n mod 2 ^ 32"
    by (simp add: x_def unsigned_of_nat take_bit_eq_mod of_nat_mod)
  show ?thesis
  proof (cases "n < 2 ^ 31")
    case True
    then have "uint x = int n" using u by simp
    moreover have "int n < 2 ^ 31" using True by simp
    ultimately have "sint x = int n"
      by (simp add: sint_uint signed_take_bit_int_eq_self)
    with True show ?thesis by (simp add: x_def)
  next
    case False
    then have "(2::int) ^ 31 \<le> int n" by simp
    moreover have "sint x < 2 ^ 31" using sint_lt[of x] by simp
    ultimately have "sint x \<noteq> int n" by simp
    with False show ?thesis by (simp add: x_def)
  qed
qed

text \<open>
  C10, as the code has it. The accumulator is a signed 32-bit \<^verbatim>\<open>long\<close>: its bit pattern
  is the big-endian value of the mantissa bytes modulo \<open>2 ^ 32\<close>, and the mantissa that
  enters the product is that pattern read in two's complement. It is the big-endian value
  itself exactly when that value is below \<open>2 ^ 31\<close>, which holds for every mantissa
  of at most three bytes.
\<close>

theorem mantissa_is_signed_32_bit:
  assumes "mantissa msg = Some x"
  shows "uint x = int (big_endian (take (unat (msg ! 5)) (drop 7 msg))) mod 2 ^ 32
       \<and> (sint x = int (big_endian (take (unat (msg ! 5)) (drop 7 msg)))) =
           (big_endian (take (unat (msg ! 5)) (drop 7 msg)) < 2 ^ 31)
       \<and> (unat (msg ! 5) \<le> 3 \<longrightarrow>
            sint x = int (big_endian (take (unat (msg ! 5)) (drop 7 msg))))"
proof -
  define bs where "bs = take (unat (msg ! 5)) (drop 7 msg)"
  have x: "x = word_of_nat (big_endian bs)"
    using assms unfolding mantissa_eq bs_def by (simp split: if_splits)
  have 1: "uint x = int (big_endian bs) mod 2 ^ 32"
    by (simp add: x unsigned_of_nat take_bit_eq_mod of_nat_mod)
  have 2: "(sint x = int (big_endian bs)) = (big_endian bs < 2 ^ 31)"
    unfolding x by (rule sint_word_of_nat)
  have 3: "sint x = int (big_endian bs)" if "unat (msg ! 5) \<le> 3"
  proof -
    have "length bs \<le> 3" using that by (simp add: bs_def)
    then have "(256::nat) ^ length bs \<le> 256 ^ 3" by (rule power_increasing) simp
    with big_endian_bound[of bs] have "big_endian bs < 2 ^ 31" by simp
    with 2 show ?thesis by simp
  qed
  from 1 2 3 show ?thesis unfolding bs_def by simp
qed


theorem mantissa_is_signed_32_bit_witness:
  "mantissa [0x3f, 0x10, 0x00, 0x01, 0x02, 0x05, 0x00, 0x01, 0x00, 0x00, 0x00, 0x07] = Some 7 \<and>
   big_endian [0x01, 0x00, 0x00, 0x00, 0x07] = 4294967303 \<and>
   uint (7 :: 32 word) = int (big_endian [0x01, 0x00, 0x00, 0x00, 0x07]) mod 2 ^ 32 \<and>
   sint (7 :: 32 word) \<noteq> int (big_endian [0x01, 0x00, 0x00, 0x00, 0x07])"
proof -
  have m: "mantissa [0x3f, 0x10, 0x00, 0x01, 0x02, 0x05, 0x00, 0x01, 0x00, 0x00, 0x00, 0x07] = Some 7"
    by (simp add: mantissa_eq big_endian_def)
  have b: "big_endian [0x01, 0x00, 0x00, 0x00, 0x07] = 4294967303"
    by (simp add: big_endian_def)
  from mantissa_is_signed_32_bit[OF m] m b show ?thesis by simp
qed

subsection \<open>Rounding\<close>

lemma rne_int: "rne (of_int k) = k"
  by (simp add: rne_def)

lemma rne_near:
  assumes "of_int k - 1 / 2 < v" "v < of_int k + 1 / 2"
  shows "rne v = k"
proof (cases "of_int k \<le> v")
  case True
  with assms have "\<lfloor>v\<rfloor> = k" by (intro floor_unique) simp_all
  with assms show ?thesis by (simp add: rne_def)
next
  case False
  with assms have f: "\<lfloor>v\<rfloor> = k - 1" by (intro floor_unique) simp_all
  from assms have "1 / 2 < v - of_int (k - 1)" by simp
  with f show ?thesis by (simp add: rne_def)
qed

lemma binade_range: "emin \<le> binade n emin a \<and> binade n emin a \<le> emin + int n"
  by (induction n) auto

lemma binade_eq:
  assumes "emin \<le> e" "e \<le> emin + int n" "2 powi e \<le> a" "a < 2 powi (e + 1)"
  shows "binade n emin a = e"
  using assms(2)
proof (induction n)
  case 0
  with assms(1) show ?case by simp
next
  case (Suc n)
  show ?case
  proof (cases "2 powi (emin + int (Suc n)) \<le> a")
    case True
    with assms(4) have "(2::real) powi (emin + int (Suc n)) < 2 powi (e + 1)" by simp
    then have "emin + int (Suc n) < e + 1"
      by (meson not_le power_int_increasing one_le_numeral)
    with Suc.prems True show ?thesis by simp
  next
    case False
    with assms(3) have "(2::real) powi e < 2 powi (emin + int (Suc n))" by simp
    then have "e < emin + int (Suc n)"
      by (meson not_le power_int_increasing one_le_numeral)
    with False Suc.IH show ?thesis by simp
  qed
qed

lemma binade_low:
  assumes "a < 2 powi (emin + 1)"
  shows "binade n emin a = emin"
proof (induction n)
  case 0
  show ?case by simp
next
  case (Suc n)
  have "(2::real) powi (emin + 1) \<le> 2 powi (emin + int (Suc n))"
    by (intro power_int_increasing) simp_all
  with assms have "\<not> 2 powi (emin + int (Suc n)) \<le> a" by simp
  with Suc show ?case by simp
qed

lemma binade_high:
  assumes "2 powi (emin + int n) \<le> a"
  shows "binade n emin a = emin + int n"
  using assms by (cases n) simp_all

lemma round_mag_at:
  assumes "binade n emin a = e"
  shows "round_mag p emin n a
           = of_int (rne (a / 2 powi (e - int p + 1))) * 2 powi (e - int p + 1)"
  using assms by (simp add: round_mag_def Let_def)

lemma round_mag_exact:
  assumes "binade n emin a = e" "a = of_int k * 2 powi (e - int p + 1)"
  shows "round_mag p emin n a = a"
proof -
  have "a / 2 powi (e - int p + 1) = of_int k"
    by (subst assms(2)) simp
  then show ?thesis
    unfolding round_mag_at[OF assms(1)] by (simp add: rne_int assms(2)[symmetric])
qed

lemma to_float_exact:
  assumes "- 126 \<le> e" "e \<le> 127" "2 powi e \<le> a" "a < 2 powi (e + 1)"
    and "a = of_int k * 2 powi (e - 23)"
  shows "to_float s a = Num s a"
proof -
  have b: "binade 253 (- 126) a = e"
    using assms(1-4) by (intro binade_eq) simp_all
  have "a = of_int k * 2 powi (e - int 24 + 1)" using assms(5) by simp
  with b have r: "round_mag 24 (- 126) 253 a = a" by (rule round_mag_exact)
  have "(2::real) powi (e + 1) \<le> 2 powi 128"
    using assms(2) by (intro power_int_increasing) simp_all
  with assms(4) have "a < 2 ^ 128" by simp
  with r show ?thesis by (simp add: to_float_def)
qed

lemma to_float_0: "to_float s 0 = Num s 0"
proof -
  have "binade 253 (- 126) 0 = - 126" by (intro binade_low) simp
  then have "round_mag 24 (- 126) 253 0 = 0" by (simp add: round_mag_at rne_def)
  then show ?thesis by (simp add: to_float_def)
qed

lemma to_float_1: "to_float s 1 = Num s 1"
  by (rule to_float_exact[where e = 0 and k = 8388608]) simp_all

lemma to_float_100: "to_float s 100 = Num s 100"
  by (rule to_float_exact[where e = 6 and k = 13107200]) simp_all

lemma to_float_261: "to_float s 261 = Num s 261"
  by (rule to_float_exact[where e = 8 and k = 8552448]) simp_all

lemma to_float_10000: "to_float s 10000 = Num s 10000"
  by (rule to_float_exact[where e = 13 and k = 10240000]) simp_all

lemma to_float_2p31: "to_float s 2147483648 = Num s 2147483648"
  by (rule to_float_exact[where e = 31 and k = 8388608]) simp_all

lemma pow10_0: "pow10 0 = 1"
proof -
  have b: "binade 2045 (- 1022) (1::real) = 0" by (intro binade_eq) simp_all
  have "round_mag 53 (- 1022) 2045 1 = 1"
    using b by (rule round_mag_exact[where k = 4503599627370496]) simp
  then show ?thesis by (simp add: pow10_def)
qed

lemma pow10_2: "pow10 2 = 100"
proof -
  have b: "binade 2045 (- 1022) (100::real) = 6" by (intro binade_eq) simp_all
  have "round_mag 53 (- 1022) 2045 100 = 100"
    using b by (rule round_mag_exact[where k = 7036874417766400]) simp
  then show ?thesis by (simp add: pow10_def)
qed






text \<open>Beyond the range of \<^verbatim>\<open>float\<close>: \<open>10 ^ 39\<close> becomes an infinity, \<open>10 powi - 46\<close> zero.\<close>

lemma to_float_pow10_39: "to_float s (pow10 39) = Infinity s"
proof -
  have b: "binade 2045 (- 1022) (10 powi 39 :: real) = 129" by (intro binade_eq) simp_all
  have r: "rne ((10 powi 39) / 2 powi 77) = 6617444900424221"
    by (rule rne_near) simp_all
  have p: "pow10 39 = 6617444900424221 * 2 powi 77"
    using round_mag_at[OF b, of 53] r by (simp add: pow10_def)
  define a :: real where "a = 6617444900424221 * 2 powi 77"
  have b': "binade 253 (- 126) a = 127"
    using binade_high[of "- 126" 253 a] by (simp add: a_def)
  have r': "rne (a / 2 powi 104) = 49303807"
    unfolding a_def by (rule rne_near) simp_all
  have "round_mag 24 (- 126) 253 a = 49303807 * 2 powi 104"
    using round_mag_at[OF b', of 24] r' by simp
  then show ?thesis by (simp add: to_float_def p a_def)
qed

lemma to_float_pow10_m46: "to_float s (pow10 (- 46)) = Num s 0"
proof -
  have b: "binade 2045 (- 1022) (10 powi (- 46) :: real) = - 153" by (intro binade_eq) simp_all
  have r: "rne ((10 powi (- 46)) / 2 powi (- 205)) = 5142201741628769"
    by (rule rne_near) simp_all
  have p: "pow10 (- 46) = 5142201741628769 * 2 powi (- 205)"
    using round_mag_at[OF b, of 53] r by (simp add: pow10_def)
  define a :: real where "a = 5142201741628769 * 2 powi (- 205)"
  have b': "binade 253 (- 126) a = - 126"
    unfolding a_def by (intro binade_low) simp
  have r': "rne (a / 2 powi (- 149)) = 0"
    unfolding a_def by (rule rne_near) simp_all
  have "round_mag 24 (- 126) 253 a = 0"
    using round_mag_at[OF b', of 24] r' by simp
  then show ?thesis by (simp add: to_float_def p a_def)
qed

subsection \<open>The exponent and the sign\<close>





lemma ifl_0: "ifl 0x00 = Num False 1"
  by (simp add: ifl_def exponent_def pow10_0 to_float_1)

lemma ifl_2: "ifl 0x02 = Num False 100"
  by (simp add: ifl_def exponent_def pow10_2 to_float_100)




text \<open>
  Where the power of ten leaves the range of \<^verbatim>\<open>float\<close>: the exponent 39 gives an
  infinity, or a NaN when the mantissa is 0, and the exponent -46 gives zero.
\<close>

lemma kamDecode_exponent_39:
  "kamDecode 0 [0x3f, 0x10, 0x00, 0x01, 0x02, 0x01, 0x27, 0x01] = Some (Infinity False)"
  by (simp add: kamDecode_def rd_def kregnum_def kregnums_def mantissa_eq big_endian_def
        ifl_def exponent_def to_float_pow10_39 float_of_long_def to_float_1)

lemma kamDecode_exponent_39_zero:
  "kamDecode 0 [0x3f, 0x10, 0x00, 0x01, 0x02, 0x01, 0x27, 0x00] = Some NaN"
  by (simp add: kamDecode_def rd_def kregnum_def kregnums_def mantissa_eq big_endian_def
        ifl_def exponent_def to_float_pow10_39 float_of_long_def to_float_0)

lemma kamDecode_exponent_m46:
  "kamDecode 0 [0x3f, 0x10, 0x00, 0x01, 0x02, 0x01, 0x6e, 0x01] = Some (Num False 0)"
  by (simp add: kamDecode_def rd_def kregnum_def kregnums_def mantissa_eq big_endian_def
        ifl_def exponent_def to_float_pow10_m46 float_of_long_def to_float_1 to_float_0)

text \<open>
  A four-byte mantissa with its top bit set is decoded as a negative number.
\<close>

theorem mantissa_counterexample:
  "mantissa [0x3f, 0x10, 0x00, 0x01, 0x02, 0x04, 0x00, 0x80, 0x00, 0x00, 0x00] = Some 0x80000000 \<and>
   big_endian [0x80, 0x00, 0x00, 0x00] = 2147483648 \<and>
   kamDecode 0 [0x3f, 0x10, 0x00, 0x01, 0x02, 0x04, 0x00, 0x80, 0x00, 0x00, 0x00]
     = Some (Num True 2147483648)"
  by (simp add: mantissa_eq big_endian_def kamDecode_def rd_def kregnum_def kregnums_def
        ifl_0 float_of_long_def to_float_2p31)

subsection \<open>The layout of a reply\<close>

text \<open>
  C2, as the code has it. In a reply that answers the request, byte 5 is the number of
  mantissa bytes, byte 6 is the exponent-and-sign byte, and the mantissa is accumulated
  big-endian over that many bytes from offset 7, in 32 bits.
\<close>

theorem kamDecode_layout:
  assumes "kregnum kreg = Some k" "answers k msg" "7 + unat (msg ! 5) \<le> length msg"
  shows "kamDecode kreg msg =
     Some (fmul (float_of_long (word_of_nat (big_endian (take (unat (msg ! 5)) (drop 7 msg)))))
                (ifl (msg ! 6)))"
  using assms by (simp add: kamDecode_match mantissa_eq rd_def)

theorem kamDecode_layout_witness:
  "kamDecode 0 [0x3f, 0x10, 0x00, 0x01, 0x02, 0x04, 0x02, 0x00, 0x00, 0x00, 0x64]
     = Some (Num False 10000)"
proof -
  have k: "kregnum 0 = Some 0x0001" by (simp add: kregnum_def kregnums_def)
  have a: "answers 0x0001 [0x3f, 0x10, 0x00, 0x01, 0x02, 0x04, 0x02, 0x00, 0x00, 0x00, 0x64]"
    by (simp add: answers_def)
  have l: "7 + unat ([0x3f, 0x10, 0x00, 0x01, 0x02, 0x04, 0x02, 0x00, 0x00, 0x00, 0x64 :: byte] ! 5)
             \<le> length [0x3f, 0x10, 0x00, 0x01, 0x02, 0x04, 0x02, 0x00, 0x00, 0x00, 0x64 :: byte]"
    by simp
  from kamDecode_layout[OF k a l] show ?thesis
    by (simp add: big_endian_def ifl_2 float_of_long_def to_float_100 to_float_10000)
qed

text \<open>
  A reply with two mantissa bytes 0x01, 0x05: the code decodes 261, while one byte
  (the count read from byte 4) taken from offset 6 is 0.
\<close>

theorem kamDecode_layout_counterexample:
  "mantissa [0x3f, 0x10, 0x00, 0x01, 0x01, 0x02, 0x00, 0x01, 0x05] = Some 261 \<and>
   kamDecode 0 [0x3f, 0x10, 0x00, 0x01, 0x01, 0x02, 0x00, 0x01, 0x05] = Some (Num False 261) \<and>
   big_endian (take (unat ([0x3f, 0x10, 0x00, 0x01, 0x01, 0x02, 0x00, 0x01, 0x05 :: byte] ! 4))
                 (drop 6 [0x3f, 0x10, 0x00, 0x01, 0x01, 0x02, 0x00, 0x01, 0x05])) = 0"
  by (simp add: mantissa_eq big_endian_def kamDecode_def rd_def kregnum_def kregnums_def
        ifl_0 float_of_long_def to_float_261)

subsection \<open>A reply that does not answer the request\<close>

text \<open>
  C6, as the code has it. When byte 0 is not 0x3f, or byte 1 is not 0x10, or bytes 2 and 3
  are not the register of the request, high byte first, \<^verbatim>\<open>kamDecode\<close> returns the
  number 0.
\<close>

theorem kamDecode_mismatch_returns_zero:
  assumes "kregnum kreg = Some k" "4 \<le> length msg" "\<not> answers k msg"
  shows "kamDecode kreg msg = Some (Num False 0)"
  using assms
  by (auto simp add: kamDecode_def rd_def answers_def
        uint_byte_eq[OF hi_byte_small] uint_byte_eq[OF lo_byte_small])

theorem kamDecode_mismatch_returns_zero_witness:
  "\<not> answers 0x0001 [0x3f, 0x10, 0x00, 0x02, 0x02, 0x04, 0x02, 0x00, 0x00, 0x00, 0x64] \<and>
   kamDecode 0 [0x3f, 0x10, 0x00, 0x02, 0x02, 0x04, 0x02, 0x00, 0x00, 0x00, 0x64]
     = Some (Num False 0)"
proof -
  have k: "kregnum 0 = Some 0x0001" by (simp add: kregnum_def kregnums_def)
  have l: "4 \<le> length [0x3f, 0x10, 0x00, 0x02, 0x02, 0x04, 0x02, 0x00, 0x00, 0x00, 0x64 :: byte]"
    by simp
  have a: "\<not> answers 0x0001 [0x3f, 0x10, 0x00, 0x02, 0x02, 0x04, 0x02, 0x00, 0x00, 0x00, 0x64]"
    by (simp add: answers_def)
  from kamDecode_mismatch_returns_zero[OF k l a] a show ?thesis by simp
qed

text \<open>
  The result for a reply to another register is the result for a reply that reads zero.
\<close>

theorem kamDecode_mismatch_counterexample:
  "kamDecode 0 [0x3f, 0x10, 0x04, 0x1e, 0x02, 0x04, 0x02, 0x00, 0x00, 0x00, 0x64]
     = Some (Num False 0) \<and>
   kamDecode 0 [0x3f, 0x10, 0x00, 0x01, 0x02, 0x04, 0x02, 0x00, 0x00, 0x00, 0x00]
     = Some (Num False 0)"
  by (simp add: mantissa_eq big_endian_def kamDecode_def rd_def kregnum_def kregnums_def
        ifl_2 float_of_long_def to_float_0)

section \<open>The receive loop\<close>

lemma stored_Nil: "stored [] = 0"
  by (simp add: stored_def)

lemma stored_Cons:
  "stored ((now, inp) # polls) =
     (case inp of None \<Rightarrow> stored polls
      | Some b \<Rightarrow> if b \<noteq> 0x40 then Suc (stored polls) else stored polls)"
  by (simp add: stored_def split: option.split)

lemma in_time_Nil: "in_time starttime [] = []"
  by (simp add: in_time_def)

lemma in_time_Cons:
  "in_time starttime ((now, inp) # polls) =
     (if KAMTIMEOUT < now - starttime then [] else (now, inp) # in_time starttime polls)"
  by (simp add: in_time_def)

lemma recv_loop_no_end_marker:
  "r \<noteq> 0x0d \<Longrightarrow> \<forall>p\<in>set (in_time starttime polls). snd p \<noteq> Some 0x0d \<Longrightarrow>
   length rxdata + stored (in_time starttime polls) \<le> 50 \<Longrightarrow>
   recv_loop r starttime rxdata polls =
     (if \<exists>p\<in>set polls. KAMTIMEOUT < fst p - starttime then Loop_timeout else Loop_waiting)"
proof (induction polls arbitrary: r rxdata)
  case Nil
  then show ?case by simp
next
  case (Cons p polls)
  obtain now inp where p: "p = (now, inp)" by (cases p)
  show ?case
  proof (cases "KAMTIMEOUT < now - starttime")
    case True
    with Cons.prems(1) show ?thesis by (simp add: p)
  next
    case False
    note late = False
    show ?thesis
    proof (cases inp)
      case None
      with Cons late show ?thesis by (simp add: p in_time_Cons stored_Cons)
    next
      case (Some b)
      from Cons.prems(2) late Some have b: "b \<noteq> 0x0d" by (simp add: p in_time_Cons)
      show ?thesis
      proof (cases "b = 0x40")
        case True
        have "recv_loop b starttime rxdata polls =
          (if \<exists>p\<in>set polls. KAMTIMEOUT < fst p - starttime then Loop_timeout else Loop_waiting)"
          using Cons.prems late Some True b
          by (intro Cons.IH) (simp_all add: p in_time_Cons stored_Cons)
        with Cons.prems(1) late Some True show ?thesis by (simp add: p)
      next
        case False
        have len: "length rxdata < 50"
          using Cons.prems(3) late Some False by (simp add: p in_time_Cons stored_Cons)
        have "recv_loop b starttime (rxdata @ [b]) polls =
          (if \<exists>p\<in>set polls. KAMTIMEOUT < fst p - starttime then Loop_timeout else Loop_waiting)"
          using Cons.prems late Some False b
          by (intro Cons.IH) (simp_all add: p in_time_Cons stored_Cons)
        with Cons.prems(1) late Some False len show ?thesis by (simp add: p)
      qed
    qed
  qed
qed

text \<open>
  C7, as the code has it. Let \<^verbatim>\<open>r\<close> not be 0x0d on entry, and let the observations made
  before the first one whose \<^verbatim>\<open>millis()\<close> exceeds \<^verbatim>\<open>starttime\<close> by more than 1000
  (modulo \<open>2 ^ 32\<close>) deliver no 0x0d and at most 50 bytes to store. Then
  \<^verbatim>\<open>kamReceive\<close> returns through its timeout branch if there is such an observation,
  and otherwise it has not returned: it times out once the deadline is exceeded and not
  before.
\<close>

theorem kamReceive_timeout:
  assumes "r \<noteq> 0x0d"
    and "\<forall>p\<in>set (in_time starttime polls). snd p \<noteq> Some 0x0d"
    and "stored (in_time starttime polls) \<le> 50"
  shows "kamReceive r starttime polls =
     (if \<exists>p\<in>set polls. KAMTIMEOUT < fst p - starttime then Timed_out else Waiting)"
  using recv_loop_no_end_marker[of r starttime polls "[]"] assms
  by (simp add: kamReceive_def)

theorem kamReceive_timeout_witness:
  "kamReceive 0 0 [(10, Some 0x41), (1000, None), (1001, Some 0x42)] = Timed_out \<and>
   kamReceive 0 0 [(10, Some 0x41), (1000, None)] = Waiting"
proof -
  have r: "(0 :: byte) \<noteq> 0x0d" by simp
  have 1: "\<forall>p\<in>set (in_time 0 [(10, Some 0x41), (1000, None), (1001, Some 0x42)]). snd p \<noteq> Some 0x0d"
    by (simp add: in_time_def KAMTIMEOUT_def)
  have 2: "stored (in_time 0 [(10, Some 0x41), (1000, None), (1001, Some 0x42)]) \<le> 50"
    by (simp add: in_time_def KAMTIMEOUT_def stored_def)
  have 3: "\<forall>p\<in>set (in_time 0 [(10, Some 0x41), (1000, None)]). snd p \<noteq> Some 0x0d"
    by (simp add: in_time_def KAMTIMEOUT_def)
  have 4: "stored (in_time 0 [(10, Some 0x41), (1000, None)]) \<le> 50"
    by (simp add: in_time_def KAMTIMEOUT_def stored_def)
  from kamReceive_timeout[OF r 1 2] kamReceive_timeout[OF r 3 4]
  show ?thesis by (simp add: KAMTIMEOUT_def)
qed

text \<open>
  A source that never sends 0x0d but sends 51 bytes within the deadline: the 51st byte is
  stored outside \<^verbatim>\<open>rxdata\<close>, and the call does not end in the timeout branch.
\<close>

lemma recv_loop_replicate:
  "r \<noteq> 0x0d \<Longrightarrow> b \<noteq> 0x0d \<Longrightarrow> b \<noteq> 0x40 \<Longrightarrow> \<not> KAMTIMEOUT < now - starttime \<Longrightarrow>
   length rxdata \<le> 50 \<Longrightarrow>
   recv_loop r starttime rxdata (replicate n (now, Some b) @ polls) =
     (if length rxdata + n \<le> 50
      then recv_loop (if n = 0 then r else b) starttime (rxdata @ replicate n b) polls
      else Loop_overrun)"
proof (induction n arbitrary: r rxdata)
  case 0
  then show ?case by simp
next
  case (Suc n)
  show ?case
  proof (cases "length rxdata < 50")
    case False
    with Suc.prems show ?thesis by simp
  next
    case True
    have "recv_loop b starttime (rxdata @ [b]) (replicate n (now, Some b) @ polls) =
     (if length (rxdata @ [b]) + n \<le> 50
      then recv_loop (if n = 0 then b else b) starttime ((rxdata @ [b]) @ replicate n b) polls
      else Loop_overrun)"
      using Suc.prems True by (intro Suc.IH) simp_all
    with Suc.prems True show ?thesis by (simp add: replicate_app_Cons_same)
  qed
qed

theorem kamReceive_timeout_counterexample:
  "kamReceive 0 0 (replicate 51 (0, Some 0x41) @ [(2000, None)]) = Undefined_behaviour"
  using recv_loop_replicate[of 0 "0x41" 0 0 "[]" 51 "[(2000, None)]"]
  by (simp add: kamReceive_def KAMTIMEOUT_def)

lemma recv_loop_in_rxdata:
  "length rxdata + stored polls \<le> 50 \<Longrightarrow>
   recv_loop r starttime rxdata polls \<noteq> Loop_overrun \<and>
   (\<forall>rx. recv_loop r starttime rxdata polls = Loop_exit rx \<longrightarrow> length rx \<le> 50)"
proof (induction polls arbitrary: r rxdata)
  case Nil
  then show ?case by simp
next
  case (Cons p polls)
  obtain now inp where p: "p = (now, inp)" by (cases p)
  show ?case
  proof (cases inp)
    case None
    with Cons show ?thesis by (simp add: p stored_Cons)
  next
    case (Some b)
    show ?thesis
    proof (cases "b = 0x40")
      case True
      with Cons Some show ?thesis by (simp add: p stored_Cons)
    next
      case False
      from Cons.prems Some False have "length (rxdata @ [b]) + stored polls \<le> 50"
        by (simp add: p stored_Cons)
      from Cons.IH[OF this] Cons.prems Some False show ?thesis
        by (simp add: p stored_Cons)
    qed
  qed
qed


text \<open>
  C9, as the code has it. The loop stores at \<^verbatim>\<open>rxdata[rxindex]\<close> without a test of
  \<^verbatim>\<open>rxindex\<close>. When the bytes to store (0x40 dropped, the end marker included) are at
  most as many as \<^verbatim>\<open>rxdata\<close> has room for, every store is inside \<^verbatim>\<open>rxdata\<close>, and
  the loop is left with at most 50 bytes.
\<close>

theorem recv_loop_stores_in_bounds:
  assumes "length rxdata + stored polls \<le> 50"
  shows "recv_loop r starttime rxdata polls \<noteq> Loop_overrun \<and>
         (\<forall>rx. recv_loop r starttime rxdata polls = Loop_exit rx \<longrightarrow> length rx \<le> 50)"
  using assms by (rule recv_loop_in_rxdata)

theorem recv_loop_stores_in_bounds_witness:
  "stored [(0, Some 0x40), (1, Some 0x41), (2, Some 0x0d)] = 2 \<and>
   recv_loop 0 0 [] [(0, Some 0x40), (1, Some 0x41), (2, Some 0x0d)] \<noteq> Loop_overrun \<and>
   recv_loop 0 0 [] [(0, Some 0x40), (1, Some 0x41), (2, Some 0x0d)] = Loop_exit [0x41, 0x0d]"
proof -
  have s: "stored [(0, Some 0x40), (1, Some 0x41), (2, Some 0x0d)] = 2"
    by (simp add: stored_def)
  have l: "length ([] :: byte list) + stored [(0, Some 0x40), (1, Some 0x41), (2, Some 0x0d)] \<le> 50"
    unfolding s by simp
  have e: "recv_loop 0 0 [] [(0, Some 0x40), (1, Some 0x41), (2, Some 0x0d)] = Loop_exit [0x41, 0x0d]"
    by (simp add: KAMTIMEOUT_def)
  from recv_loop_stores_in_bounds[OF l, of 0 0] s e show ?thesis by simp
qed

text \<open>
  A reply of 51 bytes: the last store is outside \<^verbatim>\<open>rxdata\<close>, and no error is returned
  in its place.
\<close>

theorem recv_loop_overrun_counterexample:
  "recv_loop 0 0 [] (replicate 51 (5, Some 0x00) @ [(6, Some 0x0d)]) = Loop_overrun \<and>
   kamReceive 0 0 (replicate 51 (5, Some 0x00) @ [(6, Some 0x0d)]) = Undefined_behaviour"
  using recv_loop_replicate[of 0 "0x00" 5 0 "[]" 51 "[(6, Some 0x0d)]"]
  by (simp add: kamReceive_def KAMTIMEOUT_def)

section \<open>The received frame\<close>

lemma xor_zero_eq: "(a::32 word) XOR b = 0 \<Longrightarrow> a = b"
  by (simp add: bit_eq_iff bit_xor_iff)

lemma join_hi: "ucast (drop_bit 8 (push_bit 8 (ucast (hi::byte)) OR ucast (lo::byte) :: 32 word)) = hi"
  by (rule bit_word_eqI) (auto simp add: bit_simps dest: bit_imp_le_length)

lemma join_lo: "ucast ((push_bit 8 (ucast (hi::byte)) OR ucast (lo::byte) :: 32 word) AND 0xff) = lo"
proof -
  have ff: "(0xff::32 word) = mask 8" by (simp add: mask_eq_exp_minus_1)
  show ?thesis unfolding ff by (rule bit_word_eqI) (auto simp add: bit_simps)
qed

lemma crc_zero_tail:
  assumes "crc_1021 (body @ [hi, lo]) = 0"
  shows "hi = ucast (drop_bit 8 (crc_1021 (body @ [0, 0])))
       \<and> lo = ucast (crc_1021 (body @ [0, 0]) AND 0xff)"
proof -
  have "crc_1021 (body @ [0, 0]) XOR (push_bit 8 (ucast hi) OR ucast lo) = 0"
    using assms by (subst (asm) crc_1021_append2)
  then have "crc_1021 (body @ [0, 0]) = push_bit 8 (ucast hi) OR ucast lo"
    by (rule xor_zero_eq)
  then show ?thesis by (simp only: join_hi join_lo)
qed

lemma recv_loop_at_end_marker: "recv_loop 0x0d starttime rxdata polls = Loop_exit rxdata"
  by (cases polls) auto

lemma recv_loop_exit_nonempty:
  "recv_loop r starttime rxdata polls = Loop_exit rx \<Longrightarrow> r \<noteq> 0x0d \<Longrightarrow> rx \<noteq> []"
proof (induction polls arbitrary: r rxdata)
  case Nil
  then show ?case by simp
next
  case (Cons p polls)
  obtain now inp where p: "p = (now, inp)" by (cases p)
  show ?case
  proof (cases inp)
    case None
    with Cons show ?thesis by (auto simp add: p split: if_splits)
  next
    case (Some b)
    show ?thesis
    proof (cases "b = 0x0d")
      case True
      with Cons.prems Some show ?thesis
        by (auto simp add: p recv_loop_at_end_marker split: if_splits)
    next
      case False
      with Cons Some show ?thesis by (auto simp add: p split: if_splits)
    qed
  qed
qed

lemma recv_loop_exit_length:
  "recv_loop r starttime rxdata polls = Loop_exit rx \<Longrightarrow> length rxdata \<le> 50 \<Longrightarrow>
   length rx \<le> 50"
proof (induction polls arbitrary: r rxdata)
  case Nil
  then show ?case by (simp split: if_splits)
next
  case (Cons p polls)
  obtain now inp where p: "p = (now, inp)" by (cases p)
  show ?case
  proof (cases "r = 0x0d")
    case True
    with Cons.prems show ?thesis by (simp add: p)
  next
    case False
    show ?thesis
    proof (cases inp)
      case None
      with Cons False show ?thesis by (auto simp add: p split: if_splits)
    next
      case (Some b)
      show ?thesis
      proof (cases "b = 0x40")
        case True
        with Cons False Some show ?thesis by (auto simp add: p split: if_splits)
      next
        case b: False
        from Cons.prems False Some b
        have "recv_loop b starttime (rxdata @ [b]) polls = Loop_exit rx" "length rxdata < 50"
          by (auto simp add: p split: if_splits)
        then show ?thesis using Cons.IH[of b "rxdata @ [b]"] by simp
      qed
    qed
  qed
qed

lemma unescape_loop_length:
  "unescape_loop rxdata recvmsg = Some out \<Longrightarrow> length recvmsg \<le> 40 \<Longrightarrow> length out \<le> 40"
proof (induction rxdata recvmsg rule: unescape_loop.induct)
  case (1 b c rest recvmsg)
  then show ?case by (auto split: if_splits)
qed simp_all

text \<open>
  C3, as the code has it. Let \<^verbatim>\<open>r\<close> not be 0x0d on entry and let the receive loop end at
  an end marker with the raw frame in \<^verbatim>\<open>rxdata\<close> (so within its 50 bytes and before the
  timeout). When the unescaped bytes fit into \<^verbatim>\<open>recvmsg\<close> and pass the checksum test,
  \<^verbatim>\<open>kamReceive\<close> returns their number and leaves all of them in \<^verbatim>\<open>recvmsg\<close>: the last
  two are still the checksum of the bytes before them.
\<close>

theorem kamReceive_keeps_checksum:
  assumes "r \<noteq> 0x0d"
    and "recv_loop r starttime [] polls = Loop_exit rxdata"
    and "unescape_loop rxdata [] = Some recvmsg"
    and "crc_1021 recvmsg = 0"
  shows "kamReceive r starttime polls = Received recvmsg
       \<and> return_value (kamReceive r starttime polls) = Some (length recvmsg)
       \<and> length rxdata \<le> 50 \<and> length recvmsg \<le> 40
       \<and> (\<forall>body hi lo. recvmsg = body @ [hi, lo] \<longrightarrow>
            hi = ucast (drop_bit 8 (crc_1021 (body @ [0, 0])))
          \<and> lo = ucast (crc_1021 (body @ [0, 0]) AND 0xff))"
proof -
  have ne: "rxdata \<noteq> []" using assms(2,1) by (rule recv_loop_exit_nonempty)
  have 1: "kamReceive r starttime polls = Received recvmsg"
    using assms ne by (simp add: kamReceive_def kamReceive_decode_def)
  have 2: "length rxdata \<le> 50" using assms(2) by (rule recv_loop_exit_length) simp
  have 3: "length recvmsg \<le> 40" using assms(3) by (rule unescape_loop_length) simp
  have 4: "hi = ucast (drop_bit 8 (crc_1021 (body @ [0, 0])))
         \<and> lo = ucast (crc_1021 (body @ [0, 0]) AND 0xff)"
    if "recvmsg = body @ [hi, lo]" for body hi lo
    using assms(4) unfolding that by (rule crc_zero_tail)
  from 1 2 3 4 show ?thesis by simp
qed

text \<open>
  A reply of eleven bytes and its checksum 0xed, 0x51, after the start byte 0x40 that
  the loop drops: thirteen bytes are returned.
\<close>

lemma crc_reply_100:
  "crc_1021 [0x3f, 0x10, 0x00, 0x01, 0x02, 0x04, 0x00, 0x00, 0x00, 0x00, 0x64, 0xed, 0x51] = 0"
  by (simp add: crc_1021_def crc_bits_unfold bits_of_def crc_update_def)

theorem kamReceive_counterexample:
  "kamReceive 0 0
     [(1, Some 0x40), (1, Some 0x3f), (1, Some 0x10), (1, Some 0x00), (1, Some 0x01),
      (1, Some 0x02), (1, Some 0x04), (1, Some 0x00), (1, Some 0x00), (1, Some 0x00),
      (1, Some 0x00), (1, Some 0x64), (1, Some 0xed), (1, Some 0x51), (1, Some 0x0d)]
     = Received [0x3f, 0x10, 0x00, 0x01, 0x02, 0x04, 0x00, 0x00, 0x00, 0x00, 0x64, 0xed, 0x51] \<and>
   kamReceive 0 0
     [(1, Some 0x40), (1, Some 0x3f), (1, Some 0x10), (1, Some 0x00), (1, Some 0x01),
      (1, Some 0x02), (1, Some 0x04), (1, Some 0x00), (1, Some 0x00), (1, Some 0x00),
      (1, Some 0x00), (1, Some 0x64), (1, Some 0xed), (1, Some 0x51), (1, Some 0x0d)]
     \<noteq> Received [0x3f, 0x10, 0x00, 0x01, 0x02, 0x04, 0x00, 0x00, 0x00, 0x00, 0x64]"
  by (simp add: kamReceive_def kamReceive_decode_def KAMTIMEOUT_def crc_reply_100)

theorem kamReceive_keeps_checksum_witness:
  "kamReceive 0 0
     [(1, Some 0x40), (1, Some 0x3f), (2, Some 0x10), (2, Some 0x01), (3, Some 0x00),
      (3, Some 0x01), (4, Some 0x55), (4, Some 0xa1), (5, Some 0x0d)]
     = Received [0x3f, 0x10, 0x01, 0x00, 0x01, 0x55, 0xa1] \<and>
   return_value (kamReceive 0 0
     [(1, Some 0x40), (1, Some 0x3f), (2, Some 0x10), (2, Some 0x01), (3, Some 0x00),
      (3, Some 0x01), (4, Some 0x55), (4, Some 0xa1), (5, Some 0x0d)]) = Some 7 \<and>
   (0x55 :: byte) = ucast (drop_bit 8 (crc_1021 [0x3f, 0x10, 0x01, 0x00, 0x01, 0, 0]))"
proof -
  have r: "(0 :: byte) \<noteq> 0x0d" by simp
  have l: "recv_loop 0 0 []
     [(1, Some 0x40), (1, Some 0x3f), (2, Some 0x10), (2, Some 0x01), (3, Some 0x00),
      (3, Some 0x01), (4, Some 0x55), (4, Some 0xa1), (5, Some 0x0d)]
     = Loop_exit [0x3f, 0x10, 0x01, 0x00, 0x01, 0x55, 0xa1, 0x0d]"
    by (simp add: KAMTIMEOUT_def)
  have u: "unescape_loop [0x3f, 0x10, 0x01, 0x00, 0x01, 0x55, 0xa1, 0x0d] []
             = Some [0x3f, 0x10, 0x01, 0x00, 0x01, 0x55, 0xa1]" by simp
  have c: "crc_1021 [0x3f, 0x10, 0x01, 0x00, 0x01, 0x55, 0xa1] = 0"
    by (simp add: crc_1021_def crc_bits_unfold bits_of_def crc_update_def)
  have s: "[0x3f, 0x10, 0x01, 0x00, 0x01, 0x55, 0xa1]
            = [0x3f, 0x10, 0x01, 0x00, 0x01] @ [0x55, 0xa1 :: byte]" by simp
  note t = kamReceive_keeps_checksum[OF r l u c]
  from t have 1: "kamReceive 0 0
     [(1, Some 0x40), (1, Some 0x3f), (2, Some 0x10), (2, Some 0x01), (3, Some 0x00),
      (3, Some 0x01), (4, Some 0x55), (4, Some 0xa1), (5, Some 0x0d)]
     = Received [0x3f, 0x10, 0x01, 0x00, 0x01, 0x55, 0xa1]" by (rule conjunct1)
  from t s have 3: "(0x55 :: byte)
      = ucast (drop_bit 8 (crc_1021 ([0x3f, 0x10, 0x01, 0x00, 0x01] @ [0, 0])))"
    by blast
  from 1 3 show ?thesis by simp
qed

end
